theory Spec2Isabelle
  imports
    Complex_Main
    "HOL-Library.Char_ord"
    "HOL-Library.List_Lexorder"
    "HOL-Library.Product_Lexorder"
    "HOL-Library.Option_ord"
    "HOL-Library.Multiset"
begin

section \<open>JavaScript values used by the handlers\<close>

text \<open>
  The catalogue service of \<^verbatim>\<open>index.js\<close> is four Express handlers and one maintenance
  function over a Firestore collection. This theory embeds the handlers as functions of
  the store and the request, and states the catalogue's properties about them.

  Numbers are JavaScript numbers: \<open>NaN\<close>, the two infinities and the finite values. A
  finite double is a rational number, and the handlers only compare numbers and multiply
  small integers, so finite numbers are rationals here; \<open>parseFloat\<close> rounds the decimal
  it reads to the nearest double. Strings are lists of 8-bit characters. Lower-casing is
  modelled on ASCII text only, and every property that lower-cases a string assumes the
  string is ASCII.
\<close>

datatype jsnum = NaN | NegInf | Fin rat | PosInf

text \<open>Firestore orders numbers with \<open>NaN\<close> first, then by value.\<close>

fun jskey :: "jsnum \<Rightarrow> nat \<times> rat" where
  "jskey NaN = (0, 0)"
| "jskey NegInf = (1, 0)"
| "jskey (Fin r) = (2, r)"
| "jskey PosInf = (3, 0)"

lemma jskey_inj: "jskey a = jskey b \<Longrightarrow> a = b"
  by (cases a; cases b) simp_all

instantiation jsnum :: linorder
begin
definition less_eq_jsnum :: "jsnum \<Rightarrow> jsnum \<Rightarrow> bool" where
  "less_eq_jsnum a b = (jskey a \<le> jskey b)"
definition less_jsnum :: "jsnum \<Rightarrow> jsnum \<Rightarrow> bool" where
  "less_jsnum a b = (jskey a < jskey b)"
instance
  by standard (auto simp: less_eq_jsnum_def less_jsnum_def dest: jskey_inj)
end

subsection \<open>Characters\<close>

definition is_space :: "char \<Rightarrow> bool" where
  \<comment> \<open>the ASCII members of \<open>StrWhiteSpaceChar\<close>: TAB, LF, VT, FF, CR, SP\<close>
  "is_space c = (c \<in> set [CHR 0x09, CHR 0x0A, CHR 0x0B, CHR 0x0C, CHR 0x0D, CHR '' ''])"

definition digit_of :: "char \<Rightarrow> nat option" where
  \<comment> \<open>the value of a digit in radix up to 16\<close>
  "digit_of = map_of
     [(CHR ''0'', 0), (CHR ''1'', 1), (CHR ''2'', 2), (CHR ''3'', 3), (CHR ''4'', 4),
      (CHR ''5'', 5), (CHR ''6'', 6), (CHR ''7'', 7), (CHR ''8'', 8), (CHR ''9'', 9),
      (CHR ''a'', 10), (CHR ''b'', 11), (CHR ''c'', 12), (CHR ''d'', 13), (CHR ''e'', 14),
      (CHR ''f'', 15), (CHR ''A'', 10), (CHR ''B'', 11), (CHR ''C'', 12), (CHR ''D'', 13),
      (CHR ''E'', 14), (CHR ''F'', 15)]"

definition is_digit :: "nat \<Rightarrow> char \<Rightarrow> bool" where
  "is_digit R c = (case digit_of c of None \<Rightarrow> False | Some d \<Rightarrow> d < R)"

definition digits_value :: "nat \<Rightarrow> string \<Rightarrow> nat" where
  "digits_value R Z = foldl (\<lambda>a c. a * R + (case digit_of c of None \<Rightarrow> 0 | Some d \<Rightarrow> d)) 0 Z"

definition lower_char :: "char \<Rightarrow> char" where
  "lower_char c =
     (case map_of (zip ''ABCDEFGHIJKLMNOPQRSTUVWXYZ'' ''abcdefghijklmnopqrstuvwxyz'') c of
        None \<Rightarrow> c
      | Some l \<Rightarrow> l)"

definition ascii :: "string \<Rightarrow> bool" where
  \<comment> \<open>every character is below 128\<close>
  "ascii s = (\<forall>c \<in> set s. \<not> digit7 c)"

definition toLowerCase :: "string \<Rightarrow> string" where
  \<comment> \<open>\<open>String.prototype.toLowerCase\<close> on a string that is \<open>ascii\<close>: the letters A to
      Z are the only characters below 128 that it changes\<close>
  "toLowerCase s = map lower_char s"

fun split :: "char \<Rightarrow> string \<Rightarrow> string list" where
  \<comment> \<open>\<open>s.split(c)\<close> for a one-character separator: one more piece than separators,
      empty pieces kept\<close>
  "split c [] = [[]]"
| "split c (x # xs) =
     (if x = c then [] # split c xs
      else (case split c xs of [] \<Rightarrow> [[x]] | w # ws \<Rightarrow> (x # w) # ws))"

subsection \<open>parseInt and parseFloat\<close>

definition strip_sign :: "string \<Rightarrow> bool \<times> string" where
  \<comment> \<open>whether the text starts with \<open>-\<close>, and the text after an optional sign\<close>
  "strip_sign t =
     (case t of
        [] \<Rightarrow> (False, [])
      | c # u \<Rightarrow> if c = CHR ''-'' then (True, u) else if c = CHR ''+'' then (False, u)
                 else (False, t))"

definition parseInt :: "string \<Rightarrow> int option" where
  \<comment> \<open>\<open>parseInt(s)\<close> with no radix; \<open>None\<close> is \<open>NaN\<close>\<close>
  "parseInt s =
     (let (neg, u) = strip_sign (dropWhile is_space s);
          hex = (take 2 u = ''0x'' \<or> take 2 u = ''0X'');
          R = (if hex then 16 else 10);
          Z = takeWhile (is_digit R) (if hex then drop 2 u else u)
      in if Z = [] then None
         else Some ((if neg then - 1 else 1) * int (digits_value R Z)))"

definition exponent :: "string \<Rightarrow> int" where
  \<comment> \<open>the value of an \<open>ExponentPart\<close> at the start of the text, 0 when there is none\<close>
  "exponent r =
     (case r of
        [] \<Rightarrow> 0
      | c # t \<Rightarrow>
          if c = CHR ''e'' \<or> c = CHR ''E'' then
            (let (neg, u) = strip_sign t; ds = takeWhile (is_digit 10) u
             in if ds = [] then 0
                else (if neg then - 1 else 1) * int (digits_value 10 ds))
          else 0)"

function bits :: "int \<Rightarrow> int" where
  \<comment> \<open>the number of binary digits of a positive integer\<close>
  "bits n = (if n \<le> 0 then 0 else 1 + bits (n div 2))"
  by pat_completeness auto
termination
  by (relation "measure nat") auto

declare bits.simps [simp del]

definition pow2 :: "int \<Rightarrow> rat" where
  "pow2 e = (if 0 \<le> e then 2 ^ nat e else 1 / 2 ^ nat (- e))"

definition floor_log2 :: "int \<Rightarrow> int \<Rightarrow> int" where
  \<comment> \<open>the integer \<open>k\<close> with \<open>2 ^ k \<le> p / q < 2 ^ (k + 1)\<close>, for positive \<open>p\<close> and \<open>q\<close>;
      it is \<open>bits p - bits q\<close> or one less\<close>
  "floor_log2 p q =
     (let k = bits p - bits q
      in if (if 0 \<le> k then 2 ^ nat k * q \<le> p else q \<le> 2 ^ nat (- k) * p) then k else k - 1)"

definition to_double :: "bool \<Rightarrow> int \<Rightarrow> int \<Rightarrow> jsnum" where
  \<comment> \<open>the double nearest to \<open>p / q\<close> (\<open>p \<ge> 0\<close>, \<open>q > 0\<close>), with the sign \<open>neg\<close>: 53
      binary digits from the exponent \<open>- 1022\<close> on, ties to the even one, infinity from
      \<open>2 ^ 1024\<close> on. \<open>u\<close> is the exponent of the last digit kept and \<open>m\<close> the digits\<close>
  "to_double neg p q =
     (if p = 0 then Fin 0
      else
        (let u = max (floor_log2 p q) (- 1022) - 52;
             N = (if u < 0 then p * 2 ^ nat (- u) else p);
             D = (if u < 0 then q else q * 2 ^ nat u);
             f = N div D;
             r = 2 * (N mod D);
             m = (if r < D then f else if D < r then f + 1 else if even f then f else f + 1)
         in if 971 < u \<or> (u = 971 \<and> 2 ^ 53 \<le> m) then (if neg then NegInf else PosInf)
            else Fin (if neg then - (of_int m * pow2 u) else of_int m * pow2 u)))"

definition parseFloat :: "string \<Rightarrow> jsnum" where
  \<comment> \<open>\<open>parseFloat(s)\<close>: the longest prefix that is a \<open>StrDecimalLiteral\<close>, as the
      double nearest to the decimal \<open>m * 10 ^ e\<close> it denotes\<close>
  "parseFloat s =
     (let (neg, u) = strip_sign (dropWhile is_space s)
      in if take 8 u = ''Infinity'' then (if neg then NegInf else PosInf)
         else
           (let ip = takeWhile (is_digit 10) u;
                r1 = dropWhile (is_digit 10) u;
                dot = (r1 \<noteq> [] \<and> hd r1 = CHR ''.'');
                fp = (if dot then takeWhile (is_digit 10) (tl r1) else []);
                r2 = (if dot then dropWhile (is_digit 10) (tl r1) else r1);
                m = int (digits_value 10 (ip @ fp));
                e = exponent r2 - int (length fp)
            in if ip = [] \<and> fp = [] then NaN
               else if 0 \<le> e then to_double neg (m * 10 ^ nat e) 1
               else to_double neg m (10 ^ nat (- e))))"

section \<open>The document store\<close>

text \<open>
  The handlers talk to Firestore through \<^verbatim>\<open>query\<close>, \<^verbatim>\<open>where\<close>, \<^verbatim>\<open>orderBy\<close>,
  \<^verbatim>\<open>limit\<close>, \<^verbatim>\<open>startAfter\<close>, \<^verbatim>\<open>getDocs\<close>, \<^verbatim>\<open>getDoc\<close> and \<^verbatim>\<open>updateDoc\<close>.
  The store is outside the repository; it is modelled here by its documented query
  semantics over a list of document snapshots:
  \<^item> a filter keeps the documents that have the field with a value that compares as asked;
    an inequality compares values of one kind only, and \<open>array-contains\<close> asks for an
    array with an element equal to the operand;
  \<^item> a query ordered by a field returns only documents that have the field;
  \<^item> the order of a query is by its \<open>orderBy\<close> fields, then by the fields of its
    inequality filters, then by document identifier, all in the direction of the last
    \<open>orderBy\<close> (ascending when there is none);
  \<^item> \<open>startAfter(snapshot)\<close> keeps the documents that come strictly after the snapshot
    in that order, and \<open>limit\<close> keeps the first ones.

  Field values are the kinds the catalogue uses: null, booleans, numbers, strings and
  arrays.
\<close>

datatype fvalue = VNull | VBool bool | VNum jsnum | VStr string | VArr "fvalue list"

text \<open>
  Firestore's order on values: first by kind (null, boolean, number, string, array),
  then inside the kind; arrays element by element, a proper prefix first.
\<close>

fun rank :: "fvalue \<Rightarrow> nat" where
  "rank VNull = 0"
| "rank (VBool _) = 1"
| "rank (VNum _) = 2"
| "rank (VStr _) = 3"
| "rank (VArr _) = 4"

fun vlt :: "fvalue \<Rightarrow> fvalue \<Rightarrow> bool" and vlts :: "fvalue list \<Rightarrow> fvalue list \<Rightarrow> bool" where
  "vlt (VBool a) (VBool b) = (a < b)"
| "vlt (VNum a) (VNum b) = (a < b)"
| "vlt (VStr a) (VStr b) = (a < b)"
| "vlt (VArr a) (VArr b) = vlts a b"
| "vlt a b = (rank a < rank b)"
| "vlts [] [] = False"
| "vlts [] (y # ys) = True"
| "vlts (x # xs) [] = False"
| "vlts (x # xs) (y # ys) = (vlt x y \<or> (x = y \<and> vlts xs ys))"

lemma vlts_irrefl: "(\<And>x. x \<in> set xs \<Longrightarrow> \<not> vlt x x) \<Longrightarrow> \<not> vlts xs xs"
  by (induction xs) auto

lemma vlt_irrefl: "\<not> vlt a a"
  by (induction a) (auto simp: vlts_irrefl)

lemma vlts_trans:
  "(\<And>x b c. x \<in> set xs \<Longrightarrow> vlt x b \<Longrightarrow> vlt b c \<Longrightarrow> vlt x c) \<Longrightarrow>
   vlts xs ys \<Longrightarrow> vlts ys zs \<Longrightarrow> vlts xs zs"
proof (induction xs arbitrary: ys zs)
  case Nil
  then show ?case by (cases ys; cases zs) auto
next
  case (Cons x xs)
  obtain y ys' where ys: "ys = y # ys'" using Cons.prems(2) by (cases ys) auto
  obtain z zs' where zs: "zs = z # zs'" using Cons.prems(3) ys by (cases zs) auto
  have head: "\<And>b c. vlt x b \<Longrightarrow> vlt b c \<Longrightarrow> vlt x c"
    using Cons.prems(1) by simp
  have rest: "vlts xs ys' \<Longrightarrow> vlts ys' zs' \<Longrightarrow> vlts xs zs'"
    using Cons.IH [of ys' zs'] Cons.prems(1) by simp
  from Cons.prems(2,3) show ?case
    unfolding ys zs using head rest by auto
qed

lemma vlt_trans: "vlt a b \<Longrightarrow> vlt b c \<Longrightarrow> vlt a c"
proof (induction a arbitrary: b c)
  case VNull
  then show ?case by (cases b; cases c) simp_all
next
  case (VBool x)
  then show ?case by (cases b; cases c) simp_all
next
  case (VNum x)
  then show ?case by (cases b; cases c) simp_all
next
  case (VStr x)
  then show ?case by (cases b; cases c) simp_all
next
  case (VArr xs)
  show ?case
  proof (cases b; cases c)
    fix ys zs assume b: "b = VArr ys" and c: "c = VArr zs"
    have "vlts xs zs"
      using vlts_trans [of xs ys zs] VArr.IH VArr.prems unfolding b c by simp
    then show ?thesis unfolding c by simp
  qed (use VArr.prems in simp_all)
qed

lemma vlts_total:
  "(\<And>x b. x \<in> set xs \<Longrightarrow> vlt x b \<or> x = b \<or> vlt b x) \<Longrightarrow>
   vlts xs ys \<or> xs = ys \<or> vlts ys xs"
proof (induction xs arbitrary: ys)
  case Nil
  then show ?case by (cases ys) auto
next
  case (Cons x xs)
  show ?case
  proof (cases ys)
    case Nil
    then show ?thesis by simp
  next
    case (Cons y ys')
    have "vlt x y \<or> x = y \<or> vlt y x" using Cons.prems by simp
    moreover have "vlts xs ys' \<or> xs = ys' \<or> vlts ys' xs"
      using Cons.IH [of ys'] Cons.prems by simp
    ultimately show ?thesis unfolding Cons by auto
  qed
qed

lemma vlt_total: "vlt a b \<or> a = b \<or> vlt b a"
proof (induction a arbitrary: b)
  case VNull
  then show ?case by (cases b) simp_all
next
  case (VBool x)
  then show ?case by (cases b) auto
next
  case (VNum x)
  then show ?case by (cases b) auto
next
  case (VStr x)
  then show ?case by (cases b) auto
next
  case (VArr xs)
  show ?case
  proof (cases b)
    case (VArr ys)
    have "vlts xs ys \<or> xs = ys \<or> vlts ys xs"
      using vlts_total [of xs ys] VArr.IH by blast
    then show ?thesis unfolding VArr by simp
  qed simp_all
qed

instantiation fvalue :: linorder
begin
definition less_eq_fvalue :: "fvalue \<Rightarrow> fvalue \<Rightarrow> bool" where
  "less_eq_fvalue a b = (vlt a b \<or> a = b)"
definition less_fvalue :: "fvalue \<Rightarrow> fvalue \<Rightarrow> bool" where
  "less_fvalue a b = vlt a b"
instance
proof
  fix x y z :: fvalue
  show "(x < y) = (x \<le> y \<and> \<not> y \<le> x)"
    unfolding less_eq_fvalue_def less_fvalue_def
    using vlt_irrefl vlt_trans by blast
  show "x \<le> x" by (simp add: less_eq_fvalue_def)
  show "x \<le> y \<Longrightarrow> y \<le> z \<Longrightarrow> x \<le> z"
    unfolding less_eq_fvalue_def using vlt_trans by blast
  show "x \<le> y \<Longrightarrow> y \<le> x \<Longrightarrow> x = y"
    unfolding less_eq_fvalue_def using vlt_irrefl vlt_trans by blast
  show "x \<le> y \<or> y \<le> x"
    unfolding less_eq_fvalue_def using vlt_total by blast
qed
end

subsection \<open>Documents and queries\<close>

type_synonym document = "string \<rightharpoonup> fvalue"

record docsnap =
  snap_id :: string
  snap_data :: document

datatype whereop = Eq | Ge | Le | ArrayContains

datatype constraint =
    Where string whereop fvalue
  | OrderBy string string
  | Limit "int option"
  | StartAfter docsnap

text \<open>
  A query parameter is a string or absent; in a condition, absent and the empty string
  are false. A query is the collection reference \<^verbatim>\<open>Products\<close> with the constraints that
  \<^verbatim>\<open>query(q, ...)\<close> added to it, in the order they were added. The direction of
  \<open>OrderBy\<close> is the string the handler passed, and the bound of \<open>Limit\<close> is the number
  it passed, \<open>None\<close> for \<open>NaN\<close>.
\<close>

type_synonym query = "constraint list"

definition Products :: query where
  "Products = []"

definition query :: "query \<Rightarrow> constraint list \<Rightarrow> query" where
  "query q cs = q @ cs"

datatype fault = Fault

definition limitDocs :: "int option \<Rightarrow> fault + constraint" where
  \<comment> \<open>\<open>limit(n)\<close> throws unless its argument is positive: it tests \<open>n <= 0\<close>, which is
      false of \<open>NaN\<close>\<close>
  "limitDocs n =
     (case n of
        None \<Rightarrow> Inr (Limit None)
      | Some k \<Rightarrow> if k \<le> 0 then Inl Fault else Inr (Limit (Some k)))"

definition field :: "docsnap \<Rightarrow> string \<Rightarrow> fvalue option" where
  \<comment> \<open>the value a query sees under a field path; \<open>__name__\<close> is the document identifier\<close>
  "field d f = (if f = ''__name__'' then Some (VStr (snap_id d)) else snap_data d f)"

fun compare_op :: "whereop \<Rightarrow> fvalue \<Rightarrow> fvalue \<Rightarrow> bool" where
  "compare_op Eq x v = (x = v)"
| "compare_op Ge x v = (rank x = rank v \<and> v \<le> x)"
| "compare_op Le x v = (rank x = rank v \<and> x \<le> v)"
| "compare_op ArrayContains x v = (case x of VArr xs \<Rightarrow> v \<in> set xs | _ \<Rightarrow> False)"

fun matches :: "docsnap \<Rightarrow> constraint \<Rightarrow> bool" where
  "matches d (Where f op v) =
     (case field d f of None \<Rightarrow> False | Some x \<Rightarrow> compare_op op x v)"
| "matches d _ = True"

fun orderBys :: "query \<Rightarrow> (string \<times> string) list" where
  "orderBys [] = []"
| "orderBys (OrderBy f dir # q) = (f, dir) # orderBys q"
| "orderBys (_ # q) = orderBys q"

fun inequality_fields :: "query \<Rightarrow> string list" where
  "inequality_fields [] = []"
| "inequality_fields (Where f Ge v # q) = f # inequality_fields q"
| "inequality_fields (Where f Le v # q) = f # inequality_fields q"
| "inequality_fields (_ # q) = inequality_fields q"

fun limit_of :: "query \<Rightarrow> int option option" where
  \<comment> \<open>the last limit added, if any\<close>
  "limit_of [] = None"
| "limit_of (Limit n # q) = (case limit_of q of None \<Rightarrow> Some n | Some m \<Rightarrow> Some m)"
| "limit_of (_ # q) = limit_of q"

fun cursor_of :: "query \<Rightarrow> docsnap option" where
  \<comment> \<open>the last start-after cursor added, if any\<close>
  "cursor_of [] = None"
| "cursor_of (StartAfter c # q) = (case cursor_of q of None \<Rightarrow> Some c | Some c' \<Rightarrow> Some c')"
| "cursor_of (_ # q) = cursor_of q"

definition order_fields :: "query \<Rightarrow> string list" where
  \<comment> \<open>the fields a query is ordered by: the explicit ones, then the inequality fields
      not among them in lexicographic order; the document identifier comes last\<close>
  "order_fields q =
     map fst (orderBys q) @
     sort (remdups (filter (\<lambda>f. f \<notin> set (map fst (orderBys q))) (inequality_fields q)))"

definition descending :: "query \<Rightarrow> bool option" where
  \<comment> \<open>the direction of the whole ordering; \<open>None\<close> when a direction is neither \<open>asc\<close>
      nor \<open>desc\<close>, or the directions are mixed\<close>
  "descending q =
     (let dirs = remdups (map snd (orderBys q))
      in if dirs = [] \<or> dirs = [''asc''] then Some False
         else if dirs = [''desc''] then Some True
         else None)"

definition order_key :: "string list \<Rightarrow> docsnap \<Rightarrow> fvalue option list \<times> string" where
  "order_key fs d = (map (field d) fs, snap_id d)"

definition bound :: "query \<Rightarrow> docsnap list \<Rightarrow> docsnap list option" where
  "bound q ds =
     (case limit_of q of
        None \<Rightarrow> Some ds
      | Some None \<Rightarrow> None
      | Some (Some n) \<Rightarrow> if n \<le> 0 then None else Some (take (nat n) ds))"

definition hits :: "docsnap list \<Rightarrow> query \<Rightarrow> docsnap list" where
  \<comment> \<open>the documents that match every filter and have every ordering field\<close>
  "hits ds q =
     filter (\<lambda>d. (\<forall>c \<in> set q. matches d c) \<and> (\<forall>f \<in> set (order_fields q). field d f \<noteq> None)) ds"

definition ordered :: "bool \<Rightarrow> string list \<Rightarrow> docsnap list \<Rightarrow> docsnap list" where
  "ordered desc fs hs =
     (if desc then rev (sort_key (order_key fs) hs) else sort_key (order_key fs) hs)"

definition after :: "bool \<Rightarrow> string list \<Rightarrow> docsnap \<Rightarrow> docsnap \<Rightarrow> bool" where
  \<comment> \<open>\<open>d\<close> comes strictly after the cursor \<open>c\<close> in the query's order\<close>
  "after desc fs c d =
     (if desc then order_key fs d < order_key fs c else order_key fs c < order_key fs d)"

definition run_query :: "docsnap list \<Rightarrow> query \<Rightarrow> docsnap list option" where
  \<comment> \<open>the documents a query returns: the hits, in the query's order, after the cursor,
      up to the limit. \<open>None\<close> for a query the store has no answer to\<close>
  "run_query ds q =
     (case descending q of
        None \<Rightarrow> None
      | Some desc \<Rightarrow>
          (let fs = order_fields q;
               res = ordered desc fs (hits ds q)
           in case cursor_of q of
                None \<Rightarrow> bound q res
              | Some c \<Rightarrow>
                  if \<exists>f \<in> set fs. field c f = None then None
                  else bound q (filter (after desc fs c) res)))"

subsection \<open>The store and the calls made to it\<close>

datatype call = GetDocs query | GetDoc string | UpdateDoc string document

text \<open>
  The state of the store is its documents. Whether the store answers a call or fails
  (no index for the query, a field path or an argument the client refuses, the network)
  is not decided by the handlers: it is the parameter \<open>serves\<close>.
\<close>

record store =
  docs :: "docsnap list"
  serves :: "call \<Rightarrow> bool"

definition getDocs :: "store \<Rightarrow> query \<Rightarrow> fault + docsnap list" where
  "getDocs st q =
     (if serves st (GetDocs q) then
        (case run_query (docs st) q of None \<Rightarrow> Inl Fault | Some ds \<Rightarrow> Inr ds)
      else Inl Fault)"

definition getDoc :: "store \<Rightarrow> string \<Rightarrow> fault + document option" where
  \<comment> \<open>\<open>getDoc(doc(Products, id))\<close>: the data of the document, \<open>None\<close> when
      \<open>exists()\<close> is false\<close>
  "getDoc st pid =
     (if serves st (GetDoc pid) then
        Inr (map_option snap_data (find (\<lambda>d. snap_id d = pid) (docs st)))
      else Inl Fault)"


section \<open>The handlers\<close>

type_synonym jsobject = "string \<rightharpoonup> fvalue"

datatype body = Records "jsobject list" | Record jsobject | ErrorBody string

datatype response = Response (status: nat) (body: body)

definition annotate :: "string \<Rightarrow> document \<Rightarrow> jsobject" where
  \<comment> \<open>\<open>{ id: doc.id, ...doc.data() }\<close>: the keys of the data are written after \<open>id\<close>\<close>
  "annotate i data = [''id'' \<mapsto> VStr i] ++ data"

definition send_docs :: "docsnap list \<Rightarrow> response" where
  "send_docs ds = Response 200 (Records (map (\<lambda>d. annotate (snap_id d) (snap_data d)) ds))"

record products_request =
  category :: "string option"
  sortBy :: "string option"
  order :: "string option"
  limit :: "string option"
  page :: "string option"

definition sort_field :: "products_request \<Rightarrow> string" where
  \<comment> \<open>\<open>sortBy = 'price'\<close>\<close>
  "sort_field rq = (case sortBy rq of None \<Rightarrow> ''price'' | Some s \<Rightarrow> s)"

definition direction :: "products_request \<Rightarrow> string" where
  \<comment> \<open>\<open>order = 'asc'\<close>\<close>
  "direction rq = (case order rq of None \<Rightarrow> ''asc'' | Some s \<Rightarrow> s)"

definition limitNum :: "products_request \<Rightarrow> int option" where
  \<comment> \<open>\<open>parseInt(maxLimit)\<close>, where \<open>maxLimit\<close> defaults to the number 10\<close>
  "limitNum rq = parseInt (case limit rq of None \<Rightarrow> ''10'' | Some s \<Rightarrow> s)"

definition pageNum :: "products_request \<Rightarrow> int option" where
  \<comment> \<open>\<open>parseInt(page)\<close>, where \<open>page\<close> defaults to the number 1\<close>
  "pageNum rq = parseInt (case page rq of None \<Rightarrow> ''1'' | Some s \<Rightarrow> s)"

definition category_filter :: "products_request \<Rightarrow> query" where
  \<comment> \<open>\<open>q\<close> after \<open>if (category) q = query(q, where('category', '==', category))\<close>\<close>
  "category_filter rq =
     (case category rq of
        None \<Rightarrow> Products
      | Some c \<Rightarrow> if c = [] then Products
                 else query Products [Where ''category'' Eq (VStr c)])"

definition fetch :: "store \<Rightarrow> query \<Rightarrow> string \<Rightarrow> call list \<Rightarrow> response \<times> call list" where
  \<comment> \<open>\<open>getDocs(q)\<close> after the calls \<open>tr\<close>, and the response that follows it: the
      documents, or the handler's \<open>catch\<close>\<close>
  "fetch st q msg tr =
     (case getDocs st q of
        Inl e \<Rightarrow> (Response 500 (ErrorBody msg), tr @ [GetDocs q])
      | Inr ds \<Rightarrow> (send_docs ds, tr @ [GetDocs q]))"

definition get_products :: "store \<Rightarrow> products_request \<Rightarrow> response \<times> call list" where
  \<comment> \<open>\<open>app.get('/products')\<close>; the second component is the calls made to the store\<close>
  "get_products st rq =
     (case limitDocs (limitNum rq) of
        Inl e \<Rightarrow> (Response 500 (ErrorBody ''Failed to fetch products''), [])
      | Inr limC \<Rightarrow>
          (let q = query (category_filter rq) [OrderBy (sort_field rq) (direction rq), limC]
           in case pageNum rq of
                None \<Rightarrow> fetch st q ''Failed to fetch products'' []
              | Some p \<Rightarrow>
                  if p > 1 then
                    (case limitDocs (map_option (\<lambda>l. (p - 1) * l) (limitNum rq)) of
                       Inl e \<Rightarrow> (Response 500 (ErrorBody ''Failed to fetch products''), [])
                     | Inr prevLimC \<Rightarrow>
                         (let previousPageQuery =
                                query Products [OrderBy (sort_field rq) (direction rq), prevLimC]
                          in case getDocs st previousPageQuery of
                               Inl e \<Rightarrow> (Response 500 (ErrorBody ''Failed to fetch products''),
                                         [GetDocs previousPageQuery])
                             | Inr previousPage \<Rightarrow>
                                 fetch st
                                   (case previousPage of
                                      [] \<Rightarrow> q
                                    | _ # _ \<Rightarrow> query q [StartAfter (last previousPage)])
                                   ''Failed to fetch products'' [GetDocs previousPageQuery]))
                  else fetch st q ''Failed to fetch products'' []))"

definition get_product :: "store \<Rightarrow> string \<Rightarrow> response \<times> call list" where
  \<comment> \<open>\<open>app.get('/product/:productId')\<close>\<close>
  "get_product st productId =
     (case getDoc st productId of
        Inl e \<Rightarrow> (Response 500 (ErrorBody ''Failed to fetch product''), [GetDoc productId])
      | Inr None \<Rightarrow> (Response 404 (ErrorBody ''Product not found''), [GetDoc productId])
      | Inr (Some data) \<Rightarrow> (Response 200 (Record (annotate productId data)), [GetDoc productId]))"

definition get_products_search :: "store \<Rightarrow> string option \<Rightarrow> response \<times> call list" where
  \<comment> \<open>\<open>app.get('/products/search')\<close>, of the parameter \<open>q\<close>\<close>
  "get_products_search st q =
     (case q of
        None \<Rightarrow> (Response 400 (ErrorBody ''Search term (q) is required''), [])
      | Some s \<Rightarrow>
          if s = [] then (Response 400 (ErrorBody ''Search term (q) is required''), [])
          else
            (let lowercaseQ = toLowerCase s;
                 searchQuery = query Products
                   [Where ''searchKeywords'' ArrayContains (VStr lowercaseQ)]
             in fetch st searchQuery ''Failed to search products'' []))"

record filter_request =
  minPrice :: "string option"
  maxPrice :: "string option"
  brand :: "string option"
  sort_param :: "string option"

definition get_products_filter :: "store \<Rightarrow> filter_request \<Rightarrow> response \<times> call list" where
  \<comment> \<open>\<open>app.get('/products/filter')\<close>; the defaults \<open>0\<close> and \<open>Infinity\<close> reach
      \<open>parseFloat\<close> as the strings they print as\<close>
  "get_products_filter st rq =
     (let lo = parseFloat (case minPrice rq of None \<Rightarrow> ''0'' | Some s \<Rightarrow> s);
          hi = parseFloat (case maxPrice rq of None \<Rightarrow> ''Infinity'' | Some s \<Rightarrow> s);
          sort' = (case sort_param rq of None \<Rightarrow> ''price'' | Some s \<Rightarrow> s);
          q0 = query Products [Where ''price'' Ge (VNum lo), Where ''price'' Le (VNum hi)];
          q1 = (case brand rq of
                  None \<Rightarrow> q0
                | Some b \<Rightarrow> if b = [] then q0
                           else query q0 [Where ''brand'' Eq (VStr (toLowerCase b))]);
          q2 = query q1 [OrderBy sort' ''asc'']
      in fetch st q2 ''Failed to filter products'' [])"

subsection \<open>The keyword maintenance pass\<close>




section \<open>Predicates and queries of the properties\<close>

text \<open>
  The names the properties are stated with: the queries each handler builds, written
  out as constraint lists, and the predicates on documents and on results.
\<close>

definition ordered_by :: "string \<Rightarrow> bool \<Rightarrow> docsnap list \<Rightarrow> bool" where
  \<comment> \<open>every document has the field, and the values never decrease along the list
      (never increase, when \<open>desc\<close>)\<close>
  "ordered_by f desc ds =
     sorted_wrt (\<lambda>a b. \<exists>x y. field a f = Some x \<and> field b f = Some y \<and>
                              (if desc then y \<le> x else x \<le> y)) ds"

definition main_query :: "products_request \<Rightarrow> int \<Rightarrow> query" where
  \<comment> \<open>the query \<open>q\<close> of the list handler before any cursor, for the limit \<open>L\<close>\<close>
  "main_query rq L =
     category_filter rq @ [OrderBy (sort_field rq) (direction rq), Limit (Some L)]"

definition previous_query :: "products_request \<Rightarrow> int \<Rightarrow> int \<Rightarrow> query" where
  \<comment> \<open>\<open>previousPageQuery\<close> as the list handler builds it for the page \<open>p\<close>\<close>
  "previous_query rq p L = [OrderBy (sort_field rq) (direction rq), Limit (Some ((p - 1) * L))]"

definition key_le :: "bool \<Rightarrow> string list \<Rightarrow> docsnap \<Rightarrow> docsnap \<Rightarrow> bool" where
  \<comment> \<open>\<open>a\<close> is not after \<open>b\<close> in the order of a query\<close>
  "key_le desc fs =
     (\<lambda>a b. if desc then order_key fs b \<le> order_key fs a else order_key fs a \<le> order_key fs b)"


definition search_query :: "string \<Rightarrow> query" where
  \<comment> \<open>\<open>searchQuery\<close> as the search handler builds it for the term \<open>s\<close>\<close>
  "search_query s = [Where ''searchKeywords'' ArrayContains (VStr (toLowerCase s))]"

fun records_of :: "response \<Rightarrow> jsobject list" where
  \<comment> \<open>the records a response carries\<close>
  "records_of (Response s (Records rs)) = rs"
| "records_of (Response s (Record r)) = [r]"
| "records_of (Response s (ErrorBody m)) = []"












section \<open>A catalogue to evaluate the handlers on\<close>

text \<open>
  Four products A, B, C, D with prices 5, 20, 45, 60. B has no rating. The store holds
  them in no particular order and answers every call.
\<close>

definition product :: "string \<Rightarrow> (string \<times> fvalue) list \<Rightarrow> docsnap" where
  "product i kvs = \<lparr>snap_id = i, snap_data = map_of kvs\<rparr>"

definition docA :: docsnap where
  "docA = product ''A''
     [(''title'', VStr ''Red Shoe''), (''price'', VNum (Fin 5)), (''brand'', VStr ''acme''),
      (''category'', VStr ''toys''), (''rating'', VNum (Fin 3)),
      (''searchKeywords'', VArr [VStr ''red'', VStr ''shoe''])]"

definition docB :: docsnap where
  "docB = product ''B''
     [(''title'', VStr ''Blue Boot''), (''price'', VNum (Fin 20)), (''brand'', VStr ''acme''),
      (''category'', VStr ''shoes''),
      (''searchKeywords'', VArr [VStr ''blue'', VStr ''boot''])]"

definition docC :: docsnap where
  "docC = product ''C''
     [(''title'', VStr ''Red Boot''), (''price'', VNum (Fin 45)), (''brand'', VStr ''zeta''),
      (''category'', VStr ''shoes''), (''rating'', VNum (Fin 4)),
      (''searchKeywords'', VArr [VStr ''red'', VStr ''boot''])]"

definition docD :: docsnap where
  "docD = product ''D''
     [(''title'', VStr ''Redwood Clog''), (''price'', VNum (Fin 60)), (''brand'', VStr ''acme''),
      (''category'', VStr ''shoes''), (''rating'', VNum (Fin 1)),
      (''searchKeywords'', VArr [VStr ''redwood'', VStr ''clog''])]"

definition shop :: store where
  "shop = \<lparr>docs = [docC, docA, docD, docB], serves = (\<lambda>c. True)\<rparr>"

definition shoes :: "string \<Rightarrow> products_request" where
  \<comment> \<open>\<open>GET /products?category=shoes&limit=1&page=n\<close>\<close>
  "shoes n = \<lparr>category = Some ''shoes'', sortBy = None, order = None,
              limit = Some ''1'', page = Some n\<rparr>"

definition by_weight :: products_request where
  \<comment> \<open>\<open>GET /products?category=shoes&sortBy=weight&limit=2&page=3\<close>\<close>
  "by_weight = \<lparr>category = Some ''shoes'', sortBy = Some ''weight'', order = None,
                limit = Some ''2'', page = Some ''3''\<rparr>"


definition docE :: docsnap where
  \<comment> \<open>a product whose stored data has an \<open>id\<close> field of its own\<close>
  "docE = product ''E'' [(''id'', VStr ''sku-9''), (''price'', VNum (Fin 70))]"

definition relabelled :: store where
  "relabelled = \<lparr>docs = [docE], serves = (\<lambda>c. True)\<rparr>"

definition all_products :: products_request where
  \<comment> \<open>\<open>GET /products\<close>\<close>
  "all_products = \<lparr>category = None, sortBy = None, order = None, limit = None, page = None\<rparr>"






definition two_per_page :: products_request where
  \<comment> \<open>\<open>GET /products?limit=2\<close>\<close>
  "two_per_page = \<lparr>category = None, sortBy = None, order = None, limit = Some ''2'',
                   page = None\<rparr>"

section \<open>Lemmas on queries and responses\<close>

lemma bound_Some:
  assumes "bound q xs = Some r"
  shows "set r \<subseteq> set xs" and "sorted_wrt R xs \<Longrightarrow> sorted_wrt R r"
    and "limit_of q = Some (Some n) \<Longrightarrow> length r \<le> nat n"
    and "limit_of q = None \<Longrightarrow> r = xs"
  using assms
  by (auto simp: bound_def sorted_wrt_take split: option.splits if_splits dest: in_set_takeD)

lemma set_ordered: "set (ordered desc fs hs) = set hs"
  by (simp add: ordered_def)

lemma mset_ordered: "mset (ordered desc fs hs) = mset hs"
  by (simp add: ordered_def)

lemma sorted_ordered: "sorted_wrt (key_le desc fs) (ordered desc fs hs)"
proof -
  have "sorted (map (order_key fs) (sort_key (order_key fs) hs))"
    by (rule sorted_sort_key)
  then have s: "sorted_wrt (\<lambda>a b. order_key fs a \<le> order_key fs b) (sort_key (order_key fs) hs)"
    by (simp add: sorted_map)
  show ?thesis
  proof (cases desc)
    case True
    then show ?thesis using s by (simp add: key_le_def ordered_def sorted_wrt_rev)
  next
    case False
    then show ?thesis using s by (simp add: key_le_def ordered_def)
  qed
qed

lemma run_query_cases:
  assumes "run_query ds q = Some r" and "descending q = Some desc"
  shows "\<exists>xs. bound q xs = Some r \<and> set xs \<subseteq> set (hits ds q)
    \<and> sorted_wrt (key_le desc (order_fields q)) xs
    \<and> (cursor_of q = None \<longrightarrow> xs = ordered desc (order_fields q) (hits ds q))"
proof (cases "cursor_of q")
  case None
  then have "bound q (ordered desc (order_fields q) (hits ds q)) = Some r"
    using assms by (simp add: run_query_def Let_def)
  then show ?thesis
    using sorted_ordered [of desc "order_fields q" "hits ds q"]
      set_ordered [of desc "order_fields q" "hits ds q"]
    by blast
next
  case (Some c)
  let ?xs = "filter (after desc (order_fields q) c) (ordered desc (order_fields q) (hits ds q))"
  have "bound q ?xs = Some r"
    using assms Some by (simp add: run_query_def Let_def split: if_splits)
  moreover have "set ?xs \<subseteq> set (hits ds q)" by (auto simp: set_ordered)
  moreover have "sorted_wrt (key_le desc (order_fields q)) ?xs"
    using sorted_ordered by (rule sorted_wrt_filter)
  ultimately have "bound q ?xs = Some r \<and> set ?xs \<subseteq> set (hits ds q)
    \<and> sorted_wrt (key_le desc (order_fields q)) ?xs
    \<and> (cursor_of q = None \<longrightarrow> ?xs = ordered desc (order_fields q) (hits ds q))"
    using Some by simp
  then show ?thesis by (rule exI)
qed

lemma run_query_Some:
  assumes "run_query ds q = Some r" and "descending q = Some desc"
  shows "set r \<subseteq> set (hits ds q)"
    and "sorted_wrt (key_le desc (order_fields q)) r"
    and "limit_of q = Some (Some n) \<Longrightarrow> length r \<le> nat n"
    and "limit_of q = None \<Longrightarrow> cursor_of q = None \<Longrightarrow> mset r = mset (hits ds q)"
proof -
  from assms obtain xs where b: "bound q xs = Some r" and s: "set xs \<subseteq> set (hits ds q)"
    and o: "sorted_wrt (key_le desc (order_fields q)) xs"
    and c: "cursor_of q = None \<Longrightarrow> xs = ordered desc (order_fields q) (hits ds q)"
    using run_query_cases by blast
  show "set r \<subseteq> set (hits ds q)" using bound_Some(1) [OF b] s by blast
  show "sorted_wrt (key_le desc (order_fields q)) r" using bound_Some(2) [OF b] o by blast
  show "limit_of q = Some (Some n) \<Longrightarrow> length r \<le> nat n" using bound_Some(3) [OF b] by blast
  show "limit_of q = None \<Longrightarrow> cursor_of q = None \<Longrightarrow> mset r = mset (hits ds q)"
    using bound_Some(4) [OF b] c by (simp add: mset_ordered)
qed

lemma run_query_defined:
  assumes "descending q = Some desc"
    and "limit_of q = None \<or> (\<exists>n. limit_of q = Some (Some n) \<and> 0 < n)"
    and "cursor_of q = None \<or>
         (\<exists>c. cursor_of q = Some c \<and> (\<forall>f \<in> set (order_fields q). field c f \<noteq> None))"
  shows "\<exists>r. run_query ds q = Some r"
  using assms
  by (auto simp: run_query_def bound_def Let_def split: option.splits)

lemma hits_D:
  assumes "d \<in> set (hits ds q)"
  shows "d \<in> set ds" and "\<And>c. c \<in> set q \<Longrightarrow> matches d c"
    and "\<And>f. f \<in> set (order_fields q) \<Longrightarrow> field d f \<noteq> None"
  using assms by (auto simp: hits_def)

lemma run_query_subset:
  assumes "run_query ds q = Some r"
  shows "set r \<subseteq> set ds"
proof -
  obtain desc where "descending q = Some desc"
    using assms by (auto simp: run_query_def split: option.splits)
  then have "set r \<subseteq> set (hits ds q)" using run_query_Some(1) [OF assms] by blast
  then show ?thesis by (auto simp: hits_def)
qed

lemma key_le_first:
  assumes "key_le desc (f # fs) a b" and "field a f = Some x" and "field b f = Some y"
  shows "if desc then y \<le> x else x \<le> y"
  using assms
  by (auto simp: key_le_def order_key_def less_eq_prod_def less_prod_def split: if_splits)

lemma ordered_by_first:
  assumes "sorted_wrt (key_le desc (f # fs)) r"
    and "\<And>d. d \<in> set r \<Longrightarrow> field d f \<noteq> None"
  shows "ordered_by f desc r"
  unfolding ordered_by_def
proof (rule sorted_wrt_mono_rel [OF _ assms(1)])
  fix a b assume "a \<in> set r" "b \<in> set r" and k: "key_le desc (f # fs) a b"
  then obtain x y where xy: "field a f = Some x" "field b f = Some y"
    using assms(2) by blast
  then show "\<exists>x y. field a f = Some x \<and> field b f = Some y \<and> (if desc then y \<le> x else x \<le> y)"
    using key_le_first [OF k xy] by simp
qed

lemma annotate_id:
  "annotate i data ''id'' = (case data ''id'' of None \<Rightarrow> Some (VStr i) | Some v \<Rightarrow> Some v)"
  by (simp add: annotate_def map_add_def split: option.split)

lemma annotate_other: "k \<noteq> ''id'' \<Longrightarrow> annotate i data k = data k"
  by (simp add: annotate_def map_add_def split: option.split)

lemma fetch_served:
  assumes "serves st (GetDocs q)" and "run_query (docs st) q = Some r"
  shows "fetch st q msg tr = (send_docs r, tr @ [GetDocs q])"
  using assms by (simp add: fetch_def getDocs_def)

lemma fetch_cases:
  "(\<exists>ds. run_query (docs st) q = Some ds \<and> fst (fetch st q msg tr) = send_docs ds) \<or>
   fst (fetch st q msg tr) = Response 500 (ErrorBody msg)"
  by (simp add: fetch_def getDocs_def split: option.split)

lemma list_query_shape:
  assumes "q0 = [] \<or> q0 = [Where ''category'' Eq v]"
    and "cur = [] \<or> cur = [StartAfter c]"
    and "q = q0 @ [OrderBy f dir, Limit n] @ cur"
  shows "order_fields q = [f]"
    and "limit_of q = Some n"
    and "cursor_of q = (if cur = [] then None else Some c)"
    and "descending q =
           (if dir = ''asc'' then Some False else if dir = ''desc'' then Some True else None)"
  using assms by (auto simp: order_fields_def descending_def)

lemma list_query_result:
  assumes q0: "q0 = [] \<or> q0 = [Where ''category'' Eq v]"
    and cur: "cur = [] \<or> (cur = [StartAfter c] \<and> field c f \<noteq> None)"
    and q: "q = q0 @ [OrderBy f dir, Limit (Some L)] @ cur"
    and L: "0 < L"
    and dir: "dir = ''asc'' \<or> dir = ''desc''"
  shows "\<exists>r. run_query ds q = Some r \<and> length r \<le> nat L \<and> set r \<subseteq> set ds
             \<and> ordered_by f (dir = ''desc'') r
             \<and> (\<forall>d \<in> set r. field d f \<noteq> None)
             \<and> (\<forall>d \<in> set r. \<forall>c \<in> set q0. matches d c)"
proof -
  have cur': "cur = [] \<or> cur = [StartAfter c]" using cur by blast
  note shape = list_query_shape [OF q0 cur' q]
  have desc: "descending q = Some (dir = ''desc'')"
    using dir shape(4) by auto
  have "\<exists>r. run_query ds q = Some r"
  proof (rule run_query_defined [OF desc])
    show "limit_of q = None \<or> (\<exists>n. limit_of q = Some (Some n) \<and> 0 < n)"
      using shape(2) L by simp
    show "cursor_of q = None \<or>
          (\<exists>c. cursor_of q = Some c \<and> (\<forall>f \<in> set (order_fields q). field c f \<noteq> None))"
      using shape(1,3) cur by auto
  qed
  then obtain r where r: "run_query ds q = Some r" ..
  note props = run_query_Some [OF r desc]
  have in_hits: "\<And>d. d \<in> set r \<Longrightarrow> d \<in> set (hits ds q)"
    using props(1) by blast
  have has_f: "\<And>d. d \<in> set r \<Longrightarrow> field d f \<noteq> None"
    using hits_D(3) [OF in_hits] shape(1) by simp
  have "length r \<le> nat L" using props(3) shape(2) by simp
  moreover have "set r \<subseteq> set ds" using hits_D(1) [OF in_hits] by blast
  moreover have "ordered_by f (dir = ''desc'') r"
    using ordered_by_first [of "dir = ''desc''" f "[]" r] props(2) has_f shape(1) by simp
  moreover have "\<forall>d \<in> set r. \<forall>c \<in> set q0. matches d c"
    using hits_D(2) [OF in_hits] q by simp
  ultimately show ?thesis using r has_f by blast
qed

lemma category_filter_cases:
  "category_filter rq = [] \<or> (\<exists>c. category_filter rq = [Where ''category'' Eq (VStr c)])"
  by (simp add: category_filter_def query_def Products_def split: option.split)


lemma main_query_result:
  assumes L: "0 < L"
    and dir: "direction rq = ''asc'' \<or> direction rq = ''desc''"
    and cur: "cur = [] \<or> (cur = [StartAfter c] \<and> field c (sort_field rq) \<noteq> None)"
  shows "\<exists>r. run_query ds (main_query rq L @ cur) = Some r \<and> length r \<le> nat L
             \<and> set r \<subseteq> set ds
             \<and> ordered_by (sort_field rq) (direction rq = ''desc'') r
             \<and> (\<forall>d \<in> set r. \<forall>c \<in> set (category_filter rq). matches d c)"
proof -
  have q: "main_query rq L @ cur =
           category_filter rq @ [OrderBy (sort_field rq) (direction rq), Limit (Some L)] @ cur"
    by (simp add: main_query_def)
  obtain v where q0: "category_filter rq = [] \<or> category_filter rq = [Where ''category'' Eq v]"
    using category_filter_cases [of rq] by blast
  show ?thesis
    using list_query_result [OF q0 cur q L dir, of ds] by blast
qed

lemma previous_query_result:
  assumes L: "0 < L" and p: "1 < p"
    and dir: "direction rq = ''asc'' \<or> direction rq = ''desc''"
  shows "\<exists>r. run_query ds (previous_query rq p L) = Some r
             \<and> (\<forall>d \<in> set r. field d (sort_field rq) \<noteq> None)"
proof -
  have pos: "0 < (p - 1) * L" using L p by simp
  have q: "previous_query rq p L =
           [] @ [OrderBy (sort_field rq) (direction rq), Limit (Some ((p - 1) * L))] @ []"
    by (simp add: previous_query_def)
  show ?thesis
    using list_query_result [where ?q0.0 = "[]" and cur = "[]" and ds = ds, OF _ _ q pos dir]
    by blast
qed

lemma get_products_first_page:
  assumes "limitNum rq = Some L" and "0 < L"
    and "\<And>p. pageNum rq = Some p \<Longrightarrow> p \<le> 1"
  shows "get_products st rq = fetch st (main_query rq L) ''Failed to fetch products'' []"
proof (cases "pageNum rq")
  case None
  then show ?thesis
    using assms(1,2) by (simp add: get_products_def limitDocs_def main_query_def query_def)
next
  case (Some p)
  then have "\<not> 1 < p" using assms(3) by fastforce
  then show ?thesis
    using assms(1,2) Some
    by (simp add: get_products_def limitDocs_def main_query_def query_def)
qed

lemma get_products_later_page:
  assumes "limitNum rq = Some L" and "0 < L" and "pageNum rq = Some p" and "1 < p"
  shows "get_products st rq =
     (case getDocs st (previous_query rq p L) of
        Inl e \<Rightarrow> (Response 500 (ErrorBody ''Failed to fetch products''),
                  [GetDocs (previous_query rq p L)])
      | Inr previousPage \<Rightarrow>
          fetch st (case previousPage of
                      [] \<Rightarrow> main_query rq L
                    | _ # _ \<Rightarrow> main_query rq L @ [StartAfter (last previousPage)])
            ''Failed to fetch products'' [GetDocs (previous_query rq p L)])"
proof -
  have pos: "\<not> (p - 1) * L \<le> 0" using assms(2,4) by (simp add: not_le)
  show ?thesis
    using assms pos
    by (simp add: get_products_def limitDocs_def main_query_def previous_query_def
        query_def Products_def Let_def split: sum.split list.split)
qed

lemma get_products_outcome:
  "fst (get_products st rq) = Response 500 (ErrorBody ''Failed to fetch products'') \<or>
   (\<exists>q tr. get_products st rq = fetch st q ''Failed to fetch products'' tr)"
  unfolding get_products_def Let_def
  by (simp split: sum.split option.split) blast

lemmas eval_order = less_eq_fvalue_def less_fvalue_def less_eq_jsnum_def less_jsnum_def
  less_eq_prod_def less_prod_def

lemmas eval_parse = parseInt_def parseFloat_def strip_sign_def is_space_def is_digit_def
  digit_of_def digits_value_def exponent_def to_double_def floor_log2_def bits.simps pow2_def

lemmas eval_query = run_query_def hits_def ordered_def after_def bound_def order_key_def
  order_fields_def descending_def field_def getDocs_def fetch_def query_def Products_def
  limitDocs_def

lemmas eval_list = get_products_def limitNum_def pageNum_def sort_field_def direction_def
  category_filter_def

lemmas eval_shop = shop_def docA_def docB_def docC_def docD_def product_def

lemma get_products_search_term:
  assumes "s \<noteq> []"
  shows "get_products_search st (Some s) =
           fetch st (search_query s) ''Failed to search products'' []"
  using assms
  by (simp add: get_products_search_def search_query_def query_def Products_def)


lemma fetch_records:
  assumes "r \<in> set (records_of (fst (fetch st q msg tr)))"
  shows "\<exists>d \<in> set (docs st). r = annotate (snap_id d) (snap_data d)"
proof -
  from fetch_cases [of st q msg tr] assms
  obtain ds where ds: "run_query (docs st) q = Some ds" "fst (fetch st q msg tr) = send_docs ds"
    by auto
  then have "r \<in> set (map (\<lambda>d. annotate (snap_id d) (snap_data d)) ds)"
    using assms by (simp add: send_docs_def)
  then show ?thesis using run_query_subset [OF ds(1)] by auto
qed

lemma get_products_records:
  assumes "r \<in> set (records_of (fst (get_products st rq)))"
  shows "\<exists>d \<in> set (docs st). r = annotate (snap_id d) (snap_data d)"
  using get_products_outcome [of st rq] assms fetch_records by fastforce

lemma get_products_search_records:
  assumes "r \<in> set (records_of (fst (get_products_search st q)))"
  shows "\<exists>d \<in> set (docs st). r = annotate (snap_id d) (snap_data d)"
proof (cases "q = None \<or> q = Some []")
  case True
  then show ?thesis using assms by (auto simp: get_products_search_def)
next
  case False
  then obtain s where "q = Some s" "s \<noteq> []" by auto
  then show ?thesis using assms get_products_search_term fetch_records by metis
qed

lemma get_products_filter_records:
  assumes "r \<in> set (records_of (fst (get_products_filter st rq)))"
  shows "\<exists>d \<in> set (docs st). r = annotate (snap_id d) (snap_data d)"
  using assms unfolding get_products_filter_def Let_def by (rule fetch_records)

lemma get_product_records:
  assumes "r \<in> set (records_of (fst (get_product st pid)))"
  shows "\<exists>d \<in> set (docs st). r = annotate (snap_id d) (snap_data d)"
proof -
  from assms obtain d where d: "find (\<lambda>d. snap_id d = pid) (docs st) = Some d"
    and r: "r = annotate pid (snap_data d)"
    by (auto simp: get_product_def getDoc_def split: sum.splits option.splits if_splits)
  from d have "d \<in> set (docs st)" "snap_id d = pid"
    by (auto simp: find_Some_iff)
  then show ?thesis using r by blast
qed













lemma filter_after_nth:
  assumes sorted: "sorted_wrt R xs" and asym: "\<And>a b. R a b \<Longrightarrow> \<not> R b a"
    and k: "k < length xs"
  shows "filter (R (xs ! k)) xs = drop (Suc k) xs"
proof -
  have before: "\<not> R (xs ! k) y" if "y \<in> set (take (Suc k) xs)" for y
  proof -
    from that obtain j where j: "j < Suc k" "j < length xs" "y = xs ! j"
      by (auto simp: in_set_conv_nth)
    show ?thesis
    proof (cases "j = k")
      case True
      then show ?thesis using asym j(3) by blast
    next
      case False
      then have "j < k" using j(1) by simp
      then have "R (xs ! j) (xs ! k)" using sorted k by (simp add: sorted_wrt_iff_nth_less)
      then show ?thesis using asym j(3) by blast
    qed
  qed
  have later: "R (xs ! k) y" if "y \<in> set (drop (Suc k) xs)" for y
  proof -
    from that obtain j where "j < length (drop (Suc k) xs)" "y = drop (Suc k) xs ! j"
      by (auto simp: in_set_conv_nth)
    then have j: "Suc k + j < length xs" "y = xs ! (Suc k + j)" by simp_all
    then show ?thesis using sorted by (simp add: sorted_wrt_iff_nth_less)
  qed
  have "filter (R (xs ! k)) xs =
        filter (R (xs ! k)) (take (Suc k) xs) @ filter (R (xs ! k)) (drop (Suc k) xs)"
    by (metis append_take_drop_id filter_append)
  moreover have "filter (R (xs ! k)) (take (Suc k) xs) = []"
    using before by (simp add: filter_empty_conv)
  moreover have "filter (R (xs ! k)) (drop (Suc k) xs) = drop (Suc k) xs"
    using later by (simp add: filter_id_conv)
  ultimately show ?thesis by simp
qed

lemma take_after_last_take:
  assumes sorted: "sorted_wrt R xs" and asym: "\<And>a b. R a b \<Longrightarrow> \<not> R b a"
    and n: "0 < n" and ne: "xs \<noteq> []"
  shows "take n (filter (R (last (take n xs))) xs) = take n (drop n xs)"
proof (cases "n \<le> length xs")
  case True
  then have "last (take n xs) = xs ! (n - 1)"
    using n ne by (simp add: last_conv_nth min_def)
  moreover have "filter (R (xs ! (n - 1))) xs = drop (Suc (n - 1)) xs"
    using filter_after_nth [OF sorted asym, of "n - 1"] True n by simp
  ultimately show ?thesis using n by simp
next
  case False
  then have "last (take n xs) = xs ! (length xs - 1)"
    using ne by (simp add: last_conv_nth min_def)
  moreover have "filter (R (xs ! (length xs - 1))) xs = drop (Suc (length xs - 1)) xs"
    using filter_after_nth [OF sorted asym, of "length xs - 1"] ne by simp
  ultimately show ?thesis using False ne by simp
qed

lemma after_asym: "after desc fs a b \<Longrightarrow> \<not> after desc fs b a"
  by (auto simp: after_def split: if_splits)

lemma ordered_strict:
  assumes "distinct (map snap_id hs)"
  shows "sorted_wrt (after desc fs) (ordered desc fs hs)"
proof -
  let ?k = "order_key fs"
  let ?s = "sort_key ?k hs"
  have "distinct (map snap_id ?s)"
    using assms by (metis distinct_map distinct_sort set_sort inj_on_cong)
  then have "distinct (map ?k ?s)"
    by (auto simp: distinct_map order_key_def inj_on_def)
  moreover have "sorted (map ?k ?s)" by (rule sorted_sort_key)
  ultimately have "sorted_wrt (<) (map ?k ?s)"
    using strict_sorted_iff by blast
  then have s: "sorted_wrt (\<lambda>a b. ?k a < ?k b) ?s"
    by (simp add: sorted_wrt_map)
  show ?thesis
  proof (cases desc)
    case True
    then show ?thesis using s by (simp add: ordered_def after_def [abs_def] sorted_wrt_rev)
  next
    case False
    then show ?thesis using s by (simp add: ordered_def after_def [abs_def])
  qed
qed

lemma run_plain_list_query:
  assumes dir: "dir = ''asc'' \<or> dir = ''desc''" and L: "0 < L"
    and cur: "cur = [] \<or> (cur = [StartAfter c] \<and> field c f \<noteq> None)"
  shows "run_query ds ([OrderBy f dir, Limit (Some L)] @ cur) =
           Some (take (nat L)
             ((if cur = [] then (\<lambda>xs. xs) else filter (after (dir = ''desc'') [f] c))
                (ordered (dir = ''desc'') [f] (filter (\<lambda>d. field d f \<noteq> None) ds))))"
proof -
  let ?q = "[OrderBy f dir, Limit (Some L)] @ cur"
  have cur': "cur = [] \<or> cur = [StartAfter c]" using cur by blast
  have q0: "([]::query) = [] \<or> ([]::query) = [Where ''category'' Eq VNull]" by simp
  have q: "?q = [] @ [OrderBy f dir, Limit (Some L)] @ cur" by simp
  note shape = list_query_shape [OF q0 cur' q]
  have m: "\<And>d. \<forall>c \<in> set ?q. matches d c" using cur' by auto
  have h: "hits ds ?q = filter (\<lambda>d. field d f \<noteq> None) ds"
    unfolding hits_def shape(1) using m by simp
  have d: "descending ?q = Some (dir = ''desc'')" using shape(4) dir by auto
  show ?thesis
    using cur L h d shape(1,2,3)
    by (auto simp: run_query_def bound_def Let_def simp del: append.simps)
qed

lemma run_query_after:
  assumes "run_query ds q = Some r" and "descending q = Some desc" and "cursor_of q = Some c"
  shows "\<forall>d \<in> set r. after desc (order_fields q) c d"
proof -
  have "bound q (filter (after desc (order_fields q) c)
                  (ordered desc (order_fields q) (hits ds q))) = Some r"
    using assms by (simp add: run_query_def Let_def split: if_splits)
  then show ?thesis using bound_Some(1) by fastforce
qed






section \<open>The properties of the catalogue service\<close>

subsection \<open>C1: the previous-page query of a later page\<close>

text \<open>
  C1: for a page \<open>N > 1\<close> the handler is said to issue first a previous-page query with
  the same filter as the main query, the category filter included, ordered the same and
  bounded to \<open>(N - 1) * limit\<close>. The handler builds that query from the bare collection.
  On \<^verbatim>\<open>GET /products?category=shoes&limit=1&page=2\<close> the first call to the store is
  ordered and bounded but carries no category filter; its last record, the cursor of the
  main query, is the toy A.
\<close>

theorem previous_page_query_without_category:
  "snd (get_products shop (shoes ''2'')) =
     [GetDocs [OrderBy ''price'' ''asc'', Limit (Some 1)],
      GetDocs [Where ''category'' Eq (VStr ''shoes''), OrderBy ''price'' ''asc'', Limit (Some 1),
               StartAfter docA]]"
  by (simp add: eval_list shoes_def eval_parse eval_query eval_order eval_shop)

text \<open>
  What the handler does on a page \<open>N > 1\<close>, for a limit that reads as a positive number:
  the first call is the query over the whole collection ordered by \<open>sortBy\<close> and
  \<open>order\<close> and bounded to \<open>(N - 1) * limit\<close>; when it returns records, the second call
  is the main query (category filter, order, limit) with the last of them as its
  start-after cursor, and every record of the response lies strictly after that cursor in
  the order of the query.
\<close>

theorem later_page_calls:
  assumes lim: "limitNum rq = Some L" and L: "0 < L"
    and page: "pageNum rq = Some p" and p: "1 < p"
    and dir: "direction rq = ''asc'' \<or> direction rq = ''desc''"
    and prev: "getDocs st (previous_query rq p L) = Inr previousPage"
    and ne: "previousPage \<noteq> []"
    and srv: "serves st (GetDocs (main_query rq L @ [StartAfter (last previousPage)]))"
  shows "previous_query rq p L =
           [OrderBy (sort_field rq) (direction rq), Limit (Some ((p - 1) * L))]
       \<and> main_query rq L =
           category_filter rq @ [OrderBy (sort_field rq) (direction rq), Limit (Some L)]
       \<and> (\<exists>snaps. get_products st rq =
              (send_docs snaps,
               [GetDocs (previous_query rq p L),
                GetDocs (main_query rq L @ [StartAfter (last previousPage)])])
            \<and> (\<forall>d \<in> set snaps.
                  after (direction rq = ''desc'') [sort_field rq] (last previousPage) d))"
proof -
  let ?c = "last previousPage"
  let ?q = "main_query rq L @ [StartAfter ?c]"
  have run_prev: "run_query (docs st) (previous_query rq p L) = Some previousPage"
    using prev by (auto simp: getDocs_def split: if_splits option.splits)
  obtain r where "run_query (docs st) (previous_query rq p L) = Some r"
    and "\<forall>d \<in> set r. field d (sort_field rq) \<noteq> None"
    using previous_query_result [OF L p dir, of "docs st"] by blast
  then have has: "field ?c (sort_field rq) \<noteq> None"
    using run_prev ne by auto
  have cur: "[StartAfter ?c] = [] \<or>
             ([StartAfter ?c] = [StartAfter ?c] \<and> field ?c (sort_field rq) \<noteq> None)"
    using has by simp
  obtain snaps where run: "run_query (docs st) ?q = Some snaps"
    using main_query_result [OF L dir cur, of "docs st"] by blast
  have shape: "order_fields ?q = [sort_field rq]" "cursor_of ?q = Some ?c"
    "descending ?q = Some (direction rq = ''desc'')"
    using category_filter_cases [of rq] dir
    by (auto simp: main_query_def order_fields_def descending_def)
  have after: "\<forall>d \<in> set snaps. after (direction rq = ''desc'') [sort_field rq] ?c d"
    using run_query_after [OF run shape(3) shape(2)] shape(1) by simp
  obtain x xs where "previousPage = x # xs" using ne by (cases previousPage) auto
  then have "get_products st rq =
      fetch st ?q ''Failed to fetch products'' [GetDocs (previous_query rq p L)]"
    using get_products_later_page [OF lim L page p, of st] prev by simp
  then have "get_products st rq =
      (send_docs snaps, [GetDocs (previous_query rq p L), GetDocs ?q])"
    using fetch_served [OF srv run] by simp
  then show ?thesis
    using after by (auto simp: previous_query_def main_query_def)
qed

text \<open>
  The same request as above: the previous page is the single record A, and the main query
  starts after it.
\<close>

theorem later_page_calls_witness:
  "limitNum (shoes ''2'') = Some 1 \<and> pageNum (shoes ''2'') = Some 2
   \<and> direction (shoes ''2'') = ''asc''
   \<and> getDocs shop (previous_query (shoes ''2'') 2 1) = Inr [docA]
   \<and> serves shop (GetDocs (main_query (shoes ''2'') 1 @ [StartAfter (last [docA])]))
   \<and> (\<exists>snaps. get_products shop (shoes ''2'') =
              (send_docs snaps,
               [GetDocs (previous_query (shoes ''2'') 2 1),
                GetDocs (main_query (shoes ''2'') 1 @ [StartAfter (last [docA])])])
            \<and> (\<forall>d \<in> set snaps.
                  after (direction (shoes ''2'') = ''desc'') [sort_field (shoes ''2'')]
                    (last [docA]) d))"
proof -
  have l: "limitNum (shoes ''2'') = Some 1" and p: "pageNum (shoes ''2'') = Some 2"
    by (simp_all add: limitNum_def pageNum_def shoes_def eval_parse)
  have d: "direction (shoes ''2'') = ''asc''" by (simp add: direction_def shoes_def)
  have g: "getDocs shop (previous_query (shoes ''2'') 2 1) = Inr [docA]"
    by (simp add: previous_query_def sort_field_def direction_def shoes_def eval_query
        eval_order eval_shop)
  have s: "serves shop (GetDocs (main_query (shoes ''2'') 1 @ [StartAfter (last [docA])]))"
    by (simp add: shop_def)
  have z: "0 < (1::int)" "1 < (2::int)" "[docA] \<noteq> []" by simp_all
  have d': "direction (shoes ''2'') = ''asc'' \<or> direction (shoes ''2'') = ''desc''"
    using d by simp
  note t = later_page_calls [OF l z(1) p z(2) d' g z(3) s]
  from l p d g s t show ?thesis by blast
qed

subsection \<open>C2: pages 1 and 2 with the same parameters\<close>

text \<open>
  C2: with at least \<open>2 * L\<close> matching products and \<open>limit = L\<close>, pages 1 and 2 are said
  to be disjoint. With the category filter \<open>shoes\<close> and \<open>limit = 1\<close> the catalogue has
  three matching products, and pages 1 and 2 are both the single record B: the cursor of
  page 2 comes from the previous-page query, which has no category filter and ends at the
  toy A.
\<close>

theorem category_pages_overlap:
  "fst (get_products shop (shoes ''1'')) = send_docs [docB] \<and>
   fst (get_products shop (shoes ''2'')) = send_docs [docB] \<and>
   length (filter (\<lambda>d. snap_data d ''category'' = Some (VStr ''shoes'')) (docs shop)) = 3"
  by (simp add: eval_list shoes_def eval_parse eval_query eval_order eval_shop)

text \<open>
  Without a category filter the pages are as C2 says. For a limit that reads as a positive
  number \<open>L\<close>, an order of \<open>asc\<close> or \<open>desc\<close>, a store that answers and documents with
  distinct identifiers: pages 1 and 2 share no identifier, and page 1 followed by page 2
  is in the order of \<open>sortBy\<close> and \<open>order\<close>.
\<close>

theorem first_two_pages_without_category:
  assumes cat: "category rq = None \<or> category rq = Some []"
    and lim: "limitNum rq = Some L" and L: "0 < L"
    and dir: "direction rq = ''asc'' \<or> direction rq = ''desc''"
    and srv: "\<And>q. serves st (GetDocs q)"
    and ids: "distinct (map snap_id (docs st))"
  shows "\<exists>p1 p2. fst (get_products st (rq\<lparr>page := Some ''1''\<rparr>)) = send_docs p1
           \<and> fst (get_products st (rq\<lparr>page := Some ''2''\<rparr>)) = send_docs p2
           \<and> set (map snap_id p1) \<inter> set (map snap_id p2) = {}
           \<and> ordered_by (sort_field rq) (direction rq = ''desc'') (p1 @ p2)"
proof -
  let ?f = "sort_field rq" and ?desc = "direction rq = ''desc''" and ?n = "nat L"
  let ?rq1 = "rq\<lparr>page := Some ''1''\<rparr>" and ?rq2 = "rq\<lparr>page := Some ''2''\<rparr>"
  let ?H = "filter (\<lambda>d. field d ?f \<noteq> None) (docs st)"
  let ?S = "ordered ?desc [?f] ?H"
  let ?q = "[OrderBy ?f (direction rq), Limit (Some L)]"
  have n: "0 < ?n" using L by simp
  have same: "limitNum ?rq1 = Some L" "limitNum ?rq2 = Some L"
    "main_query ?rq1 L = ?q" "main_query ?rq2 L = ?q" "previous_query ?rq2 2 L = ?q"
    using lim cat
    by (auto simp: limitNum_def main_query_def previous_query_def category_filter_def
        sort_field_def direction_def Products_def)
  have pages: "pageNum ?rq1 = Some 1" "pageNum ?rq2 = Some 2"
    by (simp_all add: pageNum_def eval_parse)
  have run: "run_query (docs st) ?q = Some (take ?n ?S)"
    using run_plain_list_query [OF dir L, of "[]" _ ?f "docs st"] by simp
  have in_H: "set ?S = set ?H" by (rule set_ordered)
  have strict: "sorted_wrt (after ?desc [?f]) ?S"
    by (rule ordered_strict) (use ids in \<open>simp add: distinct_map_filter\<close>)
  have one: "fst (get_products st ?rq1) = send_docs (take ?n ?S)"
    using get_products_first_page [OF same(1) L, of st] pages(1) same(3)
      fetch_served [OF srv run] by simp
  have two: "fst (get_products st ?rq2) = send_docs (take ?n (drop ?n ?S))"
  proof (cases "?S = []")
    case True
    then have "getDocs st (previous_query ?rq2 2 L) = Inr []"
      using srv run same(5) by (simp add: getDocs_def)
    then have "get_products st ?rq2 =
        fetch st ?q ''Failed to fetch products'' [GetDocs (previous_query ?rq2 2 L)]"
      using get_products_later_page [OF same(2) L pages(2), of st] same(4) by simp
    then show ?thesis using fetch_served [OF srv run] True by simp
  next
    case False
    let ?c = "last (take ?n ?S)"
    have ne: "take ?n ?S \<noteq> []" using False n by simp
    then obtain x xs where tk: "take ?n ?S = x # xs" by (cases "take ?n ?S") auto
    have "?c \<in> set (take ?n ?S)" using ne by simp
    then have "?c \<in> set ?H" using in_H by (auto dest: in_set_takeD)
    then have has: "field ?c ?f \<noteq> None" by simp
    have run2: "run_query (docs st) (?q @ [StartAfter ?c]) =
        Some (take ?n (filter (after ?desc [?f] ?c) ?S))"
      using run_plain_list_query [OF dir L, of "[StartAfter ?c]" ?c ?f "docs st"] has by simp
    have "getDocs st (previous_query ?rq2 2 L) = Inr (take ?n ?S)"
      using srv run same(5) by (simp add: getDocs_def)
    then have "get_products st ?rq2 =
        fetch st (?q @ [StartAfter ?c]) ''Failed to fetch products''
          [GetDocs (previous_query ?rq2 2 L)]"
      using get_products_later_page [OF same(2) L pages(2), of st] same(4) tk by simp
    then have "fst (get_products st ?rq2) = send_docs (take ?n (filter (after ?desc [?f] ?c) ?S))"
      using fetch_served [OF srv run2] by simp
    then show ?thesis
      using take_after_last_take [OF strict after_asym n False] by simp
  qed
  have whole: "take ?n ?S @ take ?n (drop ?n ?S) = take (?n + ?n) ?S"
    by (simp add: take_add)
  have "distinct (map snap_id ?H)" using ids by (simp add: distinct_map_filter)
  then have "distinct (map snap_id ?S)"
    by (metis (no_types, lifting) mset_ordered mset_map mset_eq_imp_distinct_iff)
  then have "distinct (map snap_id (take (?n + ?n) ?S))"
    by (simp add: distinct_take take_map [symmetric])
  then have disj: "set (map snap_id (take ?n ?S)) \<inter> set (map snap_id (take ?n (drop ?n ?S))) = {}"
    unfolding whole [symmetric] by simp
  have "sorted_wrt (key_le ?desc [?f]) (take (?n + ?n) ?S)"
    using sorted_ordered [of ?desc "[?f]" ?H] by (simp add: sorted_wrt_take)
  moreover have "\<And>d. d \<in> set (take (?n + ?n) ?S) \<Longrightarrow> field d ?f \<noteq> None"
    using in_H by (auto dest: in_set_takeD)
  ultimately have "ordered_by ?f ?desc (take (?n + ?n) ?S)"
    by (rule ordered_by_first)
  then have ord: "ordered_by ?f ?desc (take ?n ?S @ take ?n (drop ?n ?S))"
    unfolding whole .
  show ?thesis using one two disj ord by blast
qed

text \<open>
  On the catalogue with two products a page, page 1 is A, B and page 2 is C, D.
\<close>

theorem first_two_pages_without_category_witness:
  "category two_per_page = None \<and> limitNum two_per_page = Some 2
   \<and> direction two_per_page = ''asc'' \<and> (\<forall>q. serves shop (GetDocs q))
   \<and> distinct (map snap_id (docs shop))
   \<and> fst (get_products shop (two_per_page\<lparr>page := Some ''1''\<rparr>)) = send_docs [docA, docB]
   \<and> fst (get_products shop (two_per_page\<lparr>page := Some ''2''\<rparr>)) = send_docs [docC, docD]
   \<and> (\<exists>p1 p2. fst (get_products shop (two_per_page\<lparr>page := Some ''1''\<rparr>)) = send_docs p1
           \<and> fst (get_products shop (two_per_page\<lparr>page := Some ''2''\<rparr>)) = send_docs p2
           \<and> set (map snap_id p1) \<inter> set (map snap_id p2) = {}
           \<and> ordered_by (sort_field two_per_page) (direction two_per_page = ''desc'') (p1 @ p2))"
proof -
  have c: "category two_per_page = None" by (simp add: two_per_page_def)
  have l: "limitNum two_per_page = Some 2" by (simp add: limitNum_def two_per_page_def eval_parse)
  have d: "direction two_per_page = ''asc''" by (simp add: direction_def two_per_page_def)
  have s: "\<And>q. serves shop (GetDocs q)" by (simp add: shop_def)
  have i: "distinct (map snap_id (docs shop))" by (simp add: eval_shop)
  have e1: "fst (get_products shop (two_per_page\<lparr>page := Some ''1''\<rparr>)) = send_docs [docA, docB]"
    by (simp add: eval_list two_per_page_def eval_parse eval_query eval_order eval_shop)
  have e2: "fst (get_products shop (two_per_page\<lparr>page := Some ''2''\<rparr>)) = send_docs [docC, docD]"
    by (simp add: eval_list two_per_page_def eval_parse eval_query eval_order eval_shop)
  note t = first_two_pages_without_category [OF _ l _ _ s i]
  from c l d s i e1 e2 t show ?thesis by simp
qed

subsection \<open>C3: an empty previous page\<close>

text \<open>
  C3: on a page \<open>N > 1\<close> whose previous-page query returns no record, the handler makes
  exactly two calls, the previous-page query and then the main query with no start-after
  cursor: the category filter when a category is given, the ordering and the limit. The
  response is the result of that query (or the handler's 500 when it fails).
\<close>

theorem get_products_empty_previous_page:
  assumes "limitNum rq = Some L" and "0 < L" and "pageNum rq = Some p" and "1 < p"
    and "getDocs st (previous_query rq p L) = Inr []"
  shows "snd (get_products st rq) = [GetDocs (previous_query rq p L), GetDocs (main_query rq L)]
       \<and> main_query rq L =
           category_filter rq @ [OrderBy (sort_field rq) (direction rq), Limit (Some L)]
       \<and> cursor_of (main_query rq L) = None
       \<and> fst (get_products st rq) =
           (case getDocs st (main_query rq L) of
              Inl e \<Rightarrow> Response 500 (ErrorBody ''Failed to fetch products'')
            | Inr ds \<Rightarrow> send_docs ds)"
proof -
  have "get_products st rq =
          fetch st (main_query rq L) ''Failed to fetch products'' [GetDocs (previous_query rq p L)]"
    using get_products_later_page [OF assms(1-4), of st] assms(5) by simp
  moreover have "cursor_of (main_query rq L) = None"
    using category_filter_cases [of rq] by (auto simp: main_query_def)
  ultimately show ?thesis
    by (simp add: fetch_def main_query_def split: sum.split)
qed

text \<open>
  No product has a \<open>weight\<close>: ordered by it, the previous-page query of page 3 is empty,
  and the main query is sent without a cursor.
\<close>

theorem get_products_empty_previous_page_witness:
  "limitNum by_weight = Some 2 \<and> pageNum by_weight = Some 3
   \<and> getDocs shop (previous_query by_weight 3 2) = Inr []
   \<and> snd (get_products shop by_weight) =
        [GetDocs [OrderBy ''weight'' ''asc'', Limit (Some 4)],
         GetDocs [Where ''category'' Eq (VStr ''shoes''), OrderBy ''weight'' ''asc'', Limit (Some 2)]]
   \<and> fst (get_products shop by_weight) = send_docs []"
proof -
  have l: "limitNum by_weight = Some 2" and p: "pageNum by_weight = Some 3"
    by (simp_all add: limitNum_def pageNum_def by_weight_def eval_parse)
  have e: "getDocs shop (previous_query by_weight 3 2) = Inr []"
    by (simp add: previous_query_def sort_field_def direction_def by_weight_def eval_query
        eval_shop)
  have m: "getDocs shop (main_query by_weight 2) = Inr []"
    by (simp add: main_query_def category_filter_def sort_field_def direction_def by_weight_def
        eval_query eval_shop)
  show ?thesis
    using get_products_empty_previous_page [OF l _ p _ e] l p e m
    by (simp add: previous_query_def main_query_def category_filter_def sort_field_def
        direction_def by_weight_def query_def Products_def)
qed

subsection \<open>C4: a page of the list\<close>




subsection \<open>C5: filtering by price and brand\<close>




subsection \<open>C6: searching by keyword\<close>



subsection \<open>C7: a product by its identifier\<close>

text \<open>
  C7, amended: when the store answers the lookup, the response is 404 when no product has
  the identifier, and else 200 with the stored data of the product under an added \<open>id\<close>
  key; the \<open>id\<close> of the response is the requested identifier when the stored data has
  no \<open>id\<close> field, and the stored \<open>id\<close> when it has one; every other field is the
  stored one.
\<close>

theorem get_product_found_or_not:
  assumes "serves st (GetDoc productId)"
  shows "get_product st productId =
           (case find (\<lambda>d. snap_id d = productId) (docs st) of
              None \<Rightarrow> (Response 404 (ErrorBody ''Product not found''), [GetDoc productId])
            | Some d \<Rightarrow> (Response 200 (Record (annotate productId (snap_data d))),
                         [GetDoc productId]))
       \<and> (\<forall>data. data ''id'' = None \<longrightarrow> annotate productId data ''id'' = Some (VStr productId))
       \<and> (\<forall>data v. data ''id'' = Some v \<longrightarrow> annotate productId data ''id'' = Some v)
       \<and> (\<forall>data k. k \<noteq> ''id'' \<longrightarrow> annotate productId data k = data k)"
  using assms
  by (simp add: get_product_def getDoc_def annotate_id annotate_other split: option.split)

text \<open>
  B is found and its record has the \<open>id\<close> B; there is no product Z.
\<close>

theorem get_product_found_or_not_witness:
  "serves shop (GetDoc ''B'') \<and> serves shop (GetDoc ''Z'')
   \<and> get_product shop ''B'' = (Response 200 (Record (annotate ''B'' (snap_data docB))), [GetDoc ''B''])
   \<and> annotate ''B'' (snap_data docB) ''id'' = Some (VStr ''B'')
   \<and> get_product shop ''Z'' = (Response 404 (ErrorBody ''Product not found''), [GetDoc ''Z''])"
proof -
  have s: "serves shop (GetDoc ''B'')" "serves shop (GetDoc ''Z'')" by (simp_all add: shop_def)
  have f: "find (\<lambda>d. snap_id d = ''B'') (docs shop) = Some docB"
    "find (\<lambda>d. snap_id d = ''Z'') (docs shop) = None"
    by (simp_all add: eval_shop)
  have n: "snap_data docB ''id'' = None" by (simp add: docB_def product_def)
  show ?thesis
    using get_product_found_or_not [OF s(1)] get_product_found_or_not [OF s(2)] s f n by simp
qed

text \<open>
  C7 as stated has the \<open>id\<close> of the response equal to the requested identifier. The
  product E stores an \<open>id\<close> field of its own, and the response to a request for E has
  the \<open>id\<close> \<open>sku-9\<close>.
\<close>

theorem get_product_stored_id_counterexample:
  "get_product relabelled ''E'' =
     (Response 200 (Record (annotate ''E'' (snap_data docE))), [GetDoc ''E''])
   \<and> annotate ''E'' (snap_data docE) ''id'' = Some (VStr ''sku-9'')"
  by (simp add: get_product_def getDoc_def relabelled_def docE_def product_def annotate_def)

subsection \<open>C8: a search without a term\<close>

text \<open>
  C8: when \<open>q\<close> is missing or empty the response is 400 with the body
  \<^verbatim>\<open>{error: 'Search term (q) is required'}\<close>, and no call is made to the store.
\<close>

theorem search_without_term:
  assumes "q = None \<or> q = Some []"
  shows "get_products_search st q =
           (Response 400 (ErrorBody ''Search term (q) is required''), [])"
  using assms by (auto simp: get_products_search_def)

text \<open>
  Both cases on the catalogue.
\<close>

theorem search_without_term_witness:
  "get_products_search shop None = (Response 400 (ErrorBody ''Search term (q) is required''), [])
   \<and> get_products_search shop (Some []) =
        (Response 400 (ErrorBody ''Search term (q) is required''), [])"
  using search_without_term [of None shop] search_without_term [of "Some []" shop] by simp

subsection \<open>C9: recomputing the search keywords\<close>




subsection \<open>C10: the id key and the stored data\<close>

text \<open>
  C10: every record in a response of the four handlers is the stored data of a document
  of the collection written over the single key \<open>id\<close> of its identifier: the \<open>id\<close> of
  the record is the stored \<open>id\<close> when the data has one and the document identifier
  otherwise, and every other key is as stored.
\<close>

theorem records_spread_stored_data:
  assumes "resp = fst (get_products st rq) \<or> resp = fst (get_products_search st q)
         \<or> resp = fst (get_products_filter st frq) \<or> resp = fst (get_product st productId)"
    and "r \<in> set (records_of resp)"
  shows "\<exists>d. d \<in> set (docs st) \<and> r = [''id'' \<mapsto> VStr (snap_id d)] ++ snap_data d
           \<and> r ''id'' = (case snap_data d ''id'' of
                             None \<Rightarrow> Some (VStr (snap_id d))
                           | Some v \<Rightarrow> Some v)
           \<and> (\<forall>k. k \<noteq> ''id'' \<longrightarrow> r k = snap_data d k)"
proof -
  have "\<exists>d \<in> set (docs st). r = annotate (snap_id d) (snap_data d)"
    using assms get_products_records get_products_search_records get_products_filter_records
      get_product_records by metis
  then obtain d where d: "d \<in> set (docs st)" "r = annotate (snap_id d) (snap_data d)" by blast
  show ?thesis
    using d annotate_id [of "snap_id d" "snap_data d"] annotate_other [of _ "snap_id d" "snap_data d"]
    by (auto simp: annotate_def)
qed

text \<open>
  The record of the product E, whose stored \<open>id\<close> is \<open>sku-9\<close>.
\<close>

theorem records_spread_stored_data_witness:
  "annotate ''E'' (snap_data docE) \<in> set (records_of (fst (get_product relabelled ''E'')))
   \<and> snap_data docE ''id'' = Some (VStr ''sku-9'')
   \<and> (\<exists>d. d \<in> set (docs relabelled)
          \<and> annotate ''E'' (snap_data docE) = [''id'' \<mapsto> VStr (snap_id d)] ++ snap_data d
          \<and> annotate ''E'' (snap_data docE) ''id'' =
              (case snap_data d ''id'' of None \<Rightarrow> Some (VStr (snap_id d)) | Some v \<Rightarrow> Some v)
          \<and> (\<forall>k. k \<noteq> ''id'' \<longrightarrow> annotate ''E'' (snap_data docE) k = snap_data d k))"
proof -
  have m: "annotate ''E'' (snap_data docE) \<in> set (records_of (fst (get_product relabelled ''E'')))"
    by (simp add: get_product_def getDoc_def relabelled_def docE_def product_def)
  have i: "snap_data docE ''id'' = Some (VStr ''sku-9'')" by (simp add: docE_def product_def)
  have "fst (get_product relabelled ''E'') = fst (get_products relabelled all_products)
      \<or> fst (get_product relabelled ''E'') = fst (get_products_search relabelled None)
      \<or> fst (get_product relabelled ''E'') = fst (get_products_filter relabelled
            \<lparr>minPrice = None, maxPrice = None, brand = None, sort_param = None\<rparr>)
      \<or> fst (get_product relabelled ''E'') = fst (get_product relabelled ''E'')"
    by simp
  from records_spread_stored_data [OF this m] m i show ?thesis by blast
qed

end
